theory Spec2Isabelle
  imports
    Main
    "HOL-Library.List_Lexorder"
    "HOL-Library.Product_Lexorder"
    "HOL-Library.Multiset"
begin

section \<open>Data model\<close>

text \<open>
  A Python \<^verbatim>\<open>str\<close> is a sequence of Unicode code points; a code point is a natural
  number. Python compares strings lexicographically by code point and tuples
  lexicographically by component, which is what the orders of
  \<^verbatim>\<open>HOL-Library.List_Lexorder\<close> and \<^verbatim>\<open>HOL-Library.Product_Lexorder\<close> do.
\<close>

type_synonym pystr = "nat list"

definition lit :: "string \<Rightarrow> pystr" where
  "lit s = map of_char s"

text \<open>
  An lxml element as \<^verbatim>\<open>compare_func.py\<close> reads it: \<^verbatim>\<open>element.tag\<close>,
  \<^verbatim>\<open>element.attrib\<close> (a dictionary in insertion order, here an association list),
  \<^verbatim>\<open>element.text\<close> (a string or \<^verbatim>\<open>None\<close>) and \<^verbatim>\<open>list(element)\<close>, the children
  in document order. Only element nodes are modelled: the tag is a string.
\<close>

datatype element =
  Element (tag: pystr) (attrib: "(pystr \<times> pystr) list") (etext: "pystr option")
    (children: "element list")

text \<open>The keys of a dictionary are unique, in every node of a tree.\<close>

fun well_formed :: "element \<Rightarrow> bool" where
  "well_formed (Element t a x cs) = (distinct (map fst a) \<and> list_all well_formed cs)"

section \<open>element\_signature\<close>

text \<open>
  \<^verbatim>\<open>str.strip()\<close> without argument removes the leading and trailing characters for
  which \<^verbatim>\<open>str.isspace\<close> holds; these are the white-space code points of CPython.
\<close>

definition isspace :: "nat \<Rightarrow> bool" where
  "isspace c \<longleftrightarrow>
     (9 \<le> c \<and> c \<le> 13) \<or> (28 \<le> c \<and> c \<le> 32) \<or> c = 133 \<or> c = 160 \<or> c = 5760 \<or>
     (8192 \<le> c \<and> c \<le> 8202) \<or> c = 8232 \<or> c = 8233 \<or> c = 8239 \<or> c = 8287 \<or> c = 12288"

definition strip :: "pystr \<Rightarrow> pystr" where
  "strip s = rev (dropWhile isspace (rev (dropWhile isspace s)))"

text \<open>\<^verbatim>\<open>element.text or ""\<close>: \<^verbatim>\<open>None\<close> and the empty string both give the empty string.\<close>

definition text_or_empty :: "element \<Rightarrow> pystr" where
  "text_or_empty element = (case etext element of None \<Rightarrow> [] | Some t \<Rightarrow> t)"

type_synonym signature = "pystr \<times> (pystr \<times> pystr) list \<times> pystr"

definition element_signature :: "element \<Rightarrow> signature" where
  "element_signature element =
     (tag element, sort (attrib element), strip (text_or_empty element))"

section \<open>The two logs\<close>

text \<open>
  A log entry is one f-string of the source; the constructor is the fixed text and the
  arguments are the values substituted into it, in the order they appear:
  \<^item> \<^verbatim>\<open>Different tags at {path}: '{tag1}' != '{tag2}'\<close>
  \<^item> \<^verbatim>\<open>Matching tags at {path}: '{tag1}'\<close>
  \<^item> \<^verbatim>\<open>Different attributes at {path}/{tag1}: {attrib1} != {attrib2}\<close>
  \<^item> \<^verbatim>\<open>Matching attributes at {path}/{tag1}: {attrib1}\<close>
  \<^item> \<^verbatim>\<open>Missing element in second file at {path}/{tag1}: {key}\<close>
  \<^item> \<^verbatim>\<open>Missing element in first file at {path}/{tag1}: {key}\<close>
  \<^item> \<^verbatim>\<open>Different count of element {key} at {path}/{tag1}: {count1} != {count2}\<close>
  \<^item> \<^verbatim>\<open>Matching element {key} at {path}/{tag1}: {count1} occurrences\<close>
  The location \<^verbatim>\<open>{path}/{tag1}\<close> is kept as the string it is.
\<close>

datatype line =
  DifferentTags pystr pystr pystr
| MatchingTags pystr pystr
| DifferentAttributes pystr "(pystr \<times> pystr) list" "(pystr \<times> pystr) list"
| MatchingAttributes pystr "(pystr \<times> pystr) list"
| MissingInSecond pystr signature
| MissingInFirst pystr signature
| DifferentCount signature pystr nat nat
| MatchingElement signature pystr nat

text \<open>The state of a run: the lists \<^verbatim>\<open>differences\<close> and \<^verbatim>\<open>matches\<close>, in this order.\<close>

type_synonym logs = "line list \<times> line list"

section \<open>Dictionaries of the comparison\<close>

text \<open>
  \<^verbatim>\<open>element1.attrib != element2.attrib\<close> compares two dictionaries: equal sizes, and
  every key of the first is in the second with an equal value.
\<close>

definition dict_eq :: "(pystr \<times> pystr) list \<Rightarrow> (pystr \<times> pystr) list \<Rightarrow> bool" where
  "dict_eq a b \<longleftrightarrow> length a = length b \<and> list_all (\<lambda>(k, v). map_of b k = Some v) a"

text \<open>
  \<^verbatim>\<open>defaultdict(list)\<close>: an association list in insertion order.
  \<^verbatim>\<open>set1[key].append(child)\<close> appends to the list of an existing key and creates the
  key, at the end, otherwise; \<^verbatim>\<open>set1[key]\<close> of an absent key is the empty list.
\<close>

type_synonym groups = "(signature \<times> element list) list"

fun append_child :: "groups \<Rightarrow> signature \<Rightarrow> element \<Rightarrow> groups" where
  "append_child [] key child = [(key, [child])]"
| "append_child ((k, cs) # g) key child =
     (if k = key then (k, cs @ [child]) # g else (k, cs) # append_child g key child)"

text \<open>Lines 47 to 54: the loop that fills the dictionary of one element.\<close>

definition group :: "element list \<Rightarrow> groups" where
  "group cs = foldl (\<lambda>set1 child. append_child set1 (element_signature child) child) [] cs"

definition keys :: "groups \<Rightarrow> signature list" where
  "keys g = map fst g"

definition getitem :: "groups \<Rightarrow> signature \<Rightarrow> element list" where
  "getitem g key = (case map_of g key of None \<Rightarrow> [] | Some cs \<Rightarrow> cs)"

text \<open>
  \<^verbatim>\<open>set1.keys() | set2.keys()\<close> and \<^verbatim>\<open>set1.keys() & set2.keys()\<close> are Python sets, and
  a \<^verbatim>\<open>for\<close> loop visits a set in an order that the language leaves open (it follows the
  hashes of the keys). The order is a parameter of the model: a function from the two
  key lists to the list of keys in the order of the visit. Every set is visited element
  by element, each once.
\<close>

type_synonym key_order = "signature list \<Rightarrow> signature list \<Rightarrow> signature list"

definition valid_union :: "key_order \<Rightarrow> bool" where
  "valid_union uo \<longleftrightarrow> (\<forall>k1 k2. distinct (uo k1 k2) \<and> set (uo k1 k2) = set k1 \<union> set k2)"

definition valid_inter :: "key_order \<Rightarrow> bool" where
  "valid_inter io \<longleftrightarrow> (\<forall>k1 k2. distinct (io k1 k2) \<and> set (io k1 k2) = set k1 \<inter> set k2)"

text \<open>Two orders to run the model with: the keys as the dictionaries list them.\<close>

definition union_in_order :: key_order where
  "union_in_order k1 k2 = remdups (k1 @ k2)"

definition inter_in_order :: key_order where
  "inter_in_order k1 k2 = remdups (filter (\<lambda>k. k \<in> set k2) k1)"

section \<open>compare\_elements\_unordered\<close>

text \<open>Lines 37 to 40: the attributes.\<close>

definition compare_attrib :: "element \<Rightarrow> element \<Rightarrow> pystr \<Rightarrow> logs \<Rightarrow> logs" where
  "compare_attrib element1 element2 loc st =
     (case st of (differences, matches) \<Rightarrow>
        if \<not> dict_eq (attrib element1) (attrib element2)
        then (differences @ [DifferentAttributes loc (attrib element1) (attrib element2)], matches)
        else (differences, matches @ [MatchingAttributes loc (attrib element1)]))"

text \<open>Lines 58 to 69: the body of the loop over the union of the keys.\<close>

definition reconcile_key :: "groups \<Rightarrow> groups \<Rightarrow> pystr \<Rightarrow> signature \<Rightarrow> logs \<Rightarrow> logs" where
  "reconcile_key set1 set2 loc key st =
     (case st of (differences, matches) \<Rightarrow>
        if key \<notin> set (keys set2) then (differences @ [MissingInSecond loc key], matches)
        else if key \<notin> set (keys set1) then (differences @ [MissingInFirst loc key], matches)
        else
          let count1 = length (getitem set1 key);
              count2 = length (getitem set2 key)
          in if count1 \<noteq> count2
             then (differences @ [DifferentCount key loc count1 count2], matches)
             else (differences, matches @ [MatchingElement key loc count1]))"

text \<open>Line 57: the loop.\<close>

definition reconcile :: "key_order \<Rightarrow> groups \<Rightarrow> groups \<Rightarrow> pystr \<Rightarrow> logs \<Rightarrow> logs" where
  "reconcile uo set1 set2 loc st =
     foldl (\<lambda>st' key. reconcile_key set1 set2 loc key st') st (uo (keys set1) (keys set2))"

text \<open>
  The function itself. The two lists are passed in and returned; the recursive calls of
  lines 72 to 74 run in the order of the two nested loops.
\<close>

function compare_elements_unordered ::
  "key_order \<Rightarrow> key_order \<Rightarrow> element \<Rightarrow> element \<Rightarrow> logs \<Rightarrow> pystr \<Rightarrow> logs" where
  "compare_elements_unordered uo io element1 element2 (differences, matches) path =
     (if tag element1 \<noteq> tag element2
      then (differences @ [DifferentTags path (tag element1) (tag element2)], matches)
      else
        let matches1 = matches @ [MatchingTags path (tag element1)];
            loc = path @ lit ''/'' @ tag element1;
            st1 = compare_attrib element1 element2 loc (differences, matches1);
            set1 = group (children element1);
            set2 = group (children element2);
            st2 = reconcile uo set1 set2 loc st1
        in foldl (\<lambda>st key.
                    foldl (\<lambda>st' (child1, child2).
                             compare_elements_unordered uo io child1 child2 st' loc)
                      st (zip (getitem set1 key) (getitem set2 key)))
             st2 (io (keys set1) (keys set2)))"
  by pat_completeness auto
termination
proof -
  have app: "getitem (append_child g key child) k =
      (if k = key then getitem g k @ [child] else getitem g k)" for g key child k
    by (induction g key child rule: append_child.induct) (auto simp: getitem_def)
  have "getitem (foldl (\<lambda>set1 child. append_child set1 (element_signature child) child) g cs) k
      = getitem g k @ filter (\<lambda>c. element_signature c = k) cs" for g cs k
    by (induction cs arbitrary: g) (auto simp: app)
  then have grp: "c \<in> set (children e)" if "c \<in> set (getitem (group (children e)) k)"
    for c e k
    using that by (auto simp: group_def) (simp add: getitem_def)
  have smaller: "size c < size e" if "c \<in> set (children e)" for c e
  proof (cases e)
    case (Element t a x cs)
    from that have "c \<in> set cs" using Element by simp
    then have "size c < Suc (size_list size cs)"
      by (induction cs) auto
    then show ?thesis using Element by simp
  qed
  show ?thesis
  proof (relation "measure (\<lambda>(uo, io, e1, e2, st, p). size e1)")
    show "wf (measure (\<lambda>(uo, io, e1, e2, st, p). size e1))"
      by simp
  qed (auto dest!: set_zip_leftD grp intro: smaller)
qed

declare compare_elements_unordered.simps [simp del]

text \<open>The logs of a call that starts with two empty lists.\<close>

definition differences_of :: "key_order \<Rightarrow> key_order \<Rightarrow> element \<Rightarrow> element \<Rightarrow> pystr \<Rightarrow> line list" where
  "differences_of uo io element1 element2 path =
     fst (compare_elements_unordered uo io element1 element2 ([], []) path)"

definition matches_of :: "key_order \<Rightarrow> key_order \<Rightarrow> element \<Rightarrow> element \<Rightarrow> pystr \<Rightarrow> line list" where
  "matches_of uo io element1 element2 path =
     snd (compare_elements_unordered uo io element1 element2 ([], []) path)"

text \<open>
  The pairs \<^verbatim>\<open>child1, child2\<close> of lines 72 and 73, in the order in which the two
  nested loops reach them.
\<close>

definition recursion_pairs :: "key_order \<Rightarrow> element \<Rightarrow> element \<Rightarrow> (element \<times> element) list" where
  "recursion_pairs io element1 element2 =
     (let set1 = group (children element1);
          set2 = group (children element2)
      in concat (map (\<lambda>key. zip (getitem set1 key) (getitem set2 key))
                  (io (keys set1) (keys set2))))"

section \<open>compare\_xml\_files\<close>

text \<open>
  \<^verbatim>\<open>parse_with_recovery\<close> reads a file and calls the parser of lxml; its result, an
  element or \<^verbatim>\<open>None\<close>, is the input here. The output is what the function prints and
  the entries it writes to \<^verbatim>\<open>match.txt\<close> and \<^verbatim>\<open>diff.txt\<close> (joined by newlines in
  the file); a file that is not written is \<^verbatim>\<open>None\<close>.
\<close>

definition identical_msg :: string where
  "identical_msg = ''XML structures are identical. Matches have been written to match.txt.''"

definition different_msg :: string where
  "different_msg = ''XML structures are different. Differences have been written to diff.txt.''"

definition failed_msg :: string where
  "failed_msg = ''Failed to parse one or both XML files.''"

record report =
  console :: "string list"
  match_txt :: "line list option"
  diff_txt :: "line list option"

definition compare_xml_files ::
  "key_order \<Rightarrow> key_order \<Rightarrow> element option \<Rightarrow> element option \<Rightarrow> report" where
  "compare_xml_files uo io root1 root2 =
     (case (root1, root2) of
        (Some r1, Some r2) \<Rightarrow>
          (case compare_elements_unordered uo io r1 r2 ([], []) (lit ''/'') of
             (differences, matches) \<Rightarrow>
               \<lparr>console = [if differences = [] then identical_msg else different_msg],
                match_txt = Some matches,
                diff_txt = (if differences \<noteq> [] then Some differences else None)\<rparr>)
      | _ \<Rightarrow>
          \<lparr>console = [failed_msg],
           match_txt = None, diff_txt = None\<rparr>)"

section \<open>The text of a log entry\<close>

text \<open>
  The f-strings of lines 31 to 69. \<^verbatim>\<open>{count1}\<close> is the decimal numeral of a length;
  \<^verbatim>\<open>{element1.attrib}\<close> and \<^verbatim>\<open>{key}\<close> are the \<^verbatim>\<open>repr\<close> of a dictionary and of a
  tuple, which Python defines and the source does not: both are parameters.
\<close>

fun str_nat :: "nat \<Rightarrow> pystr" where
  "str_nat n = (if n < 10 then [48 + n] else str_nat (n div 10) @ [48 + n mod 10])"

declare str_nat.simps [simp del]

fun render :: "((pystr \<times> pystr) list \<Rightarrow> pystr) \<Rightarrow> (signature \<Rightarrow> pystr) \<Rightarrow> line \<Rightarrow> pystr" where
  "render repr_dict repr_key (DifferentTags path tag1 tag2) =
     lit ''Different tags at '' @ path @ lit '': '' @ [39] @ tag1 @ [39] @ lit '' != '' @
     [39] @ tag2 @ [39]"
| "render repr_dict repr_key (MatchingTags path tag1) =
     lit ''Matching tags at '' @ path @ lit '': '' @ [39] @ tag1 @ [39]"
| "render repr_dict repr_key (DifferentAttributes loc attrib1 attrib2) =
     lit ''Different attributes at '' @ loc @ lit '': '' @ repr_dict attrib1 @ lit '' != '' @
     repr_dict attrib2"
| "render repr_dict repr_key (MatchingAttributes loc attrib1) =
     lit ''Matching attributes at '' @ loc @ lit '': '' @ repr_dict attrib1"
| "render repr_dict repr_key (MissingInSecond loc key) =
     lit ''Missing element in second file at '' @ loc @ lit '': '' @ repr_key key"
| "render repr_dict repr_key (MissingInFirst loc key) =
     lit ''Missing element in first file at '' @ loc @ lit '': '' @ repr_key key"
| "render repr_dict repr_key (DifferentCount key loc count1 count2) =
     lit ''Different count of element '' @ repr_key key @ lit '' at '' @ loc @ lit '': '' @
     str_nat count1 @ lit '' != '' @ str_nat count2"
| "render repr_dict repr_key (MatchingElement key loc count1) =
     lit ''Matching element '' @ repr_key key @ lit '' at '' @ loc @ lit '': '' @
     str_nat count1 @ lit '' occurrences''"

section \<open>The specification's reading of the steps\<close>

text \<open>The entries that the source appends to \<^verbatim>\<open>differences\<close>; the others go to \<^verbatim>\<open>matches\<close>.\<close>

fun is_difference :: "line \<Rightarrow> bool" where
  "is_difference (DifferentTags path tag1 tag2) = True"
| "is_difference (MatchingTags path tag1) = False"
| "is_difference (DifferentAttributes loc attrib1 attrib2) = True"
| "is_difference (MatchingAttributes loc attrib1) = False"
| "is_difference (MissingInSecond loc key) = True"
| "is_difference (MissingInFirst loc key) = True"
| "is_difference (DifferentCount key loc count1 count2) = True"
| "is_difference (MatchingElement key loc count1) = False"

text \<open>
  Step 5 in the specification's words: the record of one signature, from the signatures
  of the direct children of the two nodes and nothing else.
\<close>

definition step5_record :: "signature list \<Rightarrow> signature list \<Rightarrow> pystr \<Rightarrow> signature \<Rightarrow> line" where
  "step5_record sigs1 sigs2 loc key =
     (if key \<in> set sigs1 \<and> key \<notin> set sigs2 then MissingInSecond loc key
      else if key \<in> set sigs2 \<and> key \<notin> set sigs1 then MissingInFirst loc key
      else if count_list sigs1 key \<noteq> count_list sigs2 key
      then DifferentCount key loc (count_list sigs1 key) (count_list sigs2 key)
      else MatchingElement key loc (count_list sigs1 key))"

text \<open>
  The trimmed text in the specification's words: \<open>t\<close> is \<open>s\<close> without the white space
  around it, that is, \<open>s\<close> is \<open>t\<close> between two runs of white space, and \<open>t\<close> neither
  starts nor ends with white space.
\<close>

definition trimmed_to :: "pystr \<Rightarrow> pystr \<Rightarrow> bool" where
  "trimmed_to s t \<longleftrightarrow>
     (\<exists>l r. s = l @ t @ r \<and> list_all isspace l \<and> list_all isspace r) \<and>
     (t = [] \<or> (\<not> isspace (hd t) \<and> \<not> isspace (last t)))"

text \<open>
  Step 6 in the specification's words: the children with one signature, paired first
  with first, second with second, up to the smaller of the two counts.
\<close>

definition with_signature :: "signature \<Rightarrow> element list \<Rightarrow> element list" where
  "with_signature key cs = filter (\<lambda>c. element_signature c = key) cs"

definition positional_pairs :: "element list \<Rightarrow> element list \<Rightarrow> signature \<Rightarrow> (element \<times> element) list" where
  "positional_pairs cs1 cs2 key =
     map (\<lambda>i. (with_signature key cs1 ! i, with_signature key cs2 ! i))
       [0 ..< min (length (with_signature key cs1)) (length (with_signature key cs2))]"

text \<open>A difference as the run with the two arguments exchanged words it.\<close>

fun mirror :: "line \<Rightarrow> line" where
  "mirror (DifferentTags path tag1 tag2) = DifferentTags path tag2 tag1"
| "mirror (MatchingTags path tag1) = MatchingTags path tag1"
| "mirror (DifferentAttributes loc attrib1 attrib2) = DifferentAttributes loc attrib2 attrib1"
| "mirror (MatchingAttributes loc attrib1) = MatchingAttributes loc attrib1"
| "mirror (MissingInSecond loc key) = MissingInFirst loc key"
| "mirror (MissingInFirst loc key) = MissingInSecond loc key"
| "mirror (DifferentCount key loc count1 count2) = DifferentCount key loc count2 count1"
| "mirror (MatchingElement key loc count1) = MatchingElement key loc count1"

text \<open>
  A tree and the tree with the children of one of its nodes in another order, where the
  children with one signature keep their order among themselves.
\<close>

definition stable_reorder :: "element list \<Rightarrow> element list \<Rightarrow> bool" where
  "stable_reorder cs cs' \<longleftrightarrow>
     mset cs' = mset cs \<and>
     list_all (\<lambda>c. with_signature (element_signature c) cs' =
                    with_signature (element_signature c) cs) cs"

inductive reordered_once :: "element \<Rightarrow> element \<Rightarrow> bool" where
  at_node: "stable_reorder cs cs' \<Longrightarrow> reordered_once (Element t a x cs) (Element t a x cs')"
| below: "reordered_once c c' \<Longrightarrow>
     reordered_once (Element t a x (l @ c # r)) (Element t a x (l @ c' # r))"

section \<open>Small documents\<close>

text \<open>\<^verbatim>\<open><t/>\<close>, and \<^verbatim>\<open><t>\<close> around children, without attributes and without text.\<close>

definition leaf :: "string \<Rightarrow> element" where
  "leaf t = Element (lit t) [] None []"

definition node :: "string \<Rightarrow> element list \<Rightarrow> element" where
  "node t cs = Element (lit t) [] None cs"

text \<open>A document with attributes, text, repeated children and a nested child.\<close>

definition sample :: element where
  "sample =
     Element (lit ''r'') [(lit ''id'', lit ''1''), (lit ''b'', lit ''2'')] (Some (lit ''t''))
       [leaf ''a'', node ''c'' [leaf ''x''], leaf ''a'']"

text \<open>
  A second document with the root of \<open>sample\<close>: the attributes in another order, no
  text, and other children.
\<close>

definition other :: element where
  "other =
     Element (lit ''r'') [(lit ''b'', lit ''2''), (lit ''id'', lit ''1'')] None
       [leaf ''a'', leaf ''d'', node ''c'' [leaf ''y'']]"

text \<open>One element written in two ways: the attributes in two orders, the text padded or not.\<close>

definition first_way :: element where
  "first_way = Element (lit ''a'') [(lit ''x'', lit ''1''), (lit ''k'', lit ''2'')]
     (Some (lit '' hi '')) [leaf ''u'']"

definition second_way :: element where
  "second_way = Element (lit ''a'') [(lit ''k'', lit ''2''), (lit ''x'', lit ''1'')]
     (Some (lit ''hi'')) []"

text \<open>
  \<^verbatim>\<open><r><c><x/></c><c/></r>\<close> and the same document with the two children of the root
  in the other order.
\<close>

definition nested_first :: element where
  "nested_first = node ''r'' [node ''c'' [leaf ''x''], leaf ''c'']"

definition nested_last :: element where
  "nested_last = node ''r'' [leaf ''c'', node ''c'' [leaf ''x'']]"

text \<open>
  Two more elements with the signature of \<^verbatim>\<open><c/>\<close>: one with a child, one whose text is
  a space.
\<close>

definition c_nested :: element where
  "c_nested = node ''c'' [leaf ''x'']"

definition c_blank :: element where
  "c_blank = Element (lit ''c'') [] (Some (lit '' '')) []"

section \<open>The dictionaries of one element\<close>

lemma getitem_append_child:
  "getitem (append_child g key child) k =
     (if k = key then getitem g k @ [child] else getitem g k)"
  by (induction g key child rule: append_child.induct) (auto simp: getitem_def)

lemma getitem_foldl:
  "getitem (foldl (\<lambda>set1 child. append_child set1 (f child) child) g cs) k =
     getitem g k @ filter (\<lambda>c. f c = k) cs"
  by (induction cs arbitrary: g) (auto simp: getitem_append_child)

lemma getitem_group: "getitem (group cs) k = with_signature k cs"
  by (simp add: group_def getitem_foldl with_signature_def) (simp add: getitem_def)

lemma keys_append_child:
  "keys (append_child g key child) = (if key \<in> set (keys g) then keys g else keys g @ [key])"
  by (induction g key child rule: append_child.induct) (auto simp: keys_def)

lemma set_keys_foldl:
  "set (keys (foldl (\<lambda>set1 child. append_child set1 (f child) child) g cs)) =
     set (keys g) \<union> f ` set cs"
  by (induction cs arbitrary: g) (auto simp: keys_append_child)

lemma distinct_keys_foldl:
  "distinct (keys g) \<Longrightarrow>
   distinct (keys (foldl (\<lambda>set1 child. append_child set1 (f child) child) g cs))"
  by (induction cs arbitrary: g) (auto simp: keys_append_child)

lemma set_keys_group: "set (keys (group cs)) = element_signature ` set cs"
  by (simp add: group_def set_keys_foldl) (simp add: keys_def)

lemma distinct_keys_group: "distinct (keys (group cs))"
  unfolding group_def by (rule distinct_keys_foldl) (simp add: keys_def)

lemma length_with_signature:
  "length (with_signature k cs) = count_list (map element_signature cs) k"
  by (induction cs) (auto simp: with_signature_def)

lemma set_with_signature: "set (with_signature k cs) \<subseteq> set cs"
  by (auto simp: with_signature_def)

lemma zip_positional:
  "zip xs ys = map (\<lambda>i. (xs ! i, ys ! i)) [0 ..< min (length xs) (length ys)]"
  by (rule nth_equalityI) auto

lemma foldl_logs:
  assumes "\<And>x d m. x \<in> set xs \<Longrightarrow> f (d, m) x = (d @ D x, m @ M x)"
  shows "foldl f (d, m) xs = (d @ concat (map D xs), m @ concat (map M xs))"
  using assms by (induction xs arbitrary: d m) simp_all

lemma compare_attrib_append:
  "compare_attrib e1 e2 loc (d, m) =
     (d @ fst (compare_attrib e1 e2 loc ([], [])), m @ snd (compare_attrib e1 e2 loc ([], [])))"
  by (simp add: compare_attrib_def)

lemma reconcile_key_group:
  assumes "key \<in> element_signature ` set cs1 \<union> element_signature ` set cs2"
  shows "reconcile_key (group cs1) (group cs2) loc key (d, m) =
     (d @ filter is_difference
            [step5_record (map element_signature cs1) (map element_signature cs2) loc key],
      m @ filter (\<lambda>r. \<not> is_difference r)
            [step5_record (map element_signature cs1) (map element_signature cs2) loc key])"
  using assms
  by (auto simp: reconcile_key_def step5_record_def set_keys_group getitem_group
      length_with_signature Let_def)

lemma reconcile_group:
  assumes "set (uo (keys (group cs1)) (keys (group cs2))) \<subseteq>
           element_signature ` set cs1 \<union> element_signature ` set cs2"
  shows "reconcile uo (group cs1) (group cs2) loc (d, m) =
     (d @ filter is_difference
            (map (step5_record (map element_signature cs1) (map element_signature cs2) loc)
               (uo (keys (group cs1)) (keys (group cs2)))),
      m @ filter (\<lambda>r. \<not> is_difference r)
            (map (step5_record (map element_signature cs1) (map element_signature cs2) loc)
               (uo (keys (group cs1)) (keys (group cs2)))))"
proof -
  let ?r = "step5_record (map element_signature cs1) (map element_signature cs2) loc"
  let ?ks = "uo (keys (group cs1)) (keys (group cs2))"
  have "foldl (\<lambda>st' key. reconcile_key (group cs1) (group cs2) loc key st') (d, m) ?ks =
      (d @ concat (map (\<lambda>k. filter is_difference [?r k]) ?ks),
       m @ concat (map (\<lambda>k. filter (\<lambda>r. \<not> is_difference r) [?r k]) ?ks))"
    using assms by (intro foldl_logs reconcile_key_group) auto
  moreover have "concat (map (\<lambda>k. filter P [?r k]) ks) = filter P (map ?r ks)" for P ks
    by (induction ks) auto
  ultimately show ?thesis
    by (simp add: reconcile_def)
qed

lemma reconcile_append:
  "reconcile uo set1 set2 loc (d, m) =
     (d @ fst (reconcile uo set1 set2 loc ([], [])), m @ snd (reconcile uo set1 set2 loc ([], [])))"
proof -
  have step: "reconcile_key set1 set2 loc key (d, m) =
      (d @ fst (reconcile_key set1 set2 loc key ([], [])),
       m @ snd (reconcile_key set1 set2 loc key ([], [])))" for key d m
    by (simp add: reconcile_key_def Let_def)
  have "foldl (\<lambda>st' key. reconcile_key set1 set2 loc key st') (d, m) ks =
      (d @ concat (map (\<lambda>key. fst (reconcile_key set1 set2 loc key ([], []))) ks),
       m @ concat (map (\<lambda>key. snd (reconcile_key set1 set2 loc key ([], []))) ks))" for d m ks
    by (rule foldl_logs) (rule step)
  from this [of d m] this [of "[]" "[]"] show ?thesis
    by (simp add: reconcile_def)
qed


lemma foldl_pairs_logs:
  assumes "\<And>c1 c2 d m. (c1, c2) \<in> set ps \<Longrightarrow> f (d, m) (c1, c2) = (d @ D c1 c2, m @ M c1 c2)"
  shows "foldl f (d, m) ps =
     (d @ concat (map (\<lambda>(c1, c2). D c1 c2) ps), m @ concat (map (\<lambda>(c1, c2). M c1 c2) ps))"
  by (rule foldl_logs) (use assms in auto)

lemma foldl_foldl_concat:
  "foldl (\<lambda>st key. foldl f st (g key)) st ks = foldl f st (concat (map g ks))"
  by (induction ks arbitrary: st) simp_all

lemma compare_loops:
  "tag e1 = tag e2 \<Longrightarrow>
   compare_elements_unordered uo io e1 e2 (d, m) p =
     foldl (\<lambda>st (child1, child2).
              compare_elements_unordered uo io child1 child2 st (p @ lit ''/'' @ tag e1))
       (reconcile uo (group (children e1)) (group (children e2)) (p @ lit ''/'' @ tag e1)
          (compare_attrib e1 e2 (p @ lit ''/'' @ tag e1) (d, m @ [MatchingTags p (tag e1)])))
       (recursion_pairs io e1 e2)"
  by (simp add: compare_elements_unordered.simps Let_def recursion_pairs_def foldl_foldl_concat)

lemma in_recursion_pairs:
  assumes "(c1, c2) \<in> set (recursion_pairs io e1 e2)"
  shows "c1 \<in> set (children e1) \<and> c2 \<in> set (children e2)"
proof -
  from assms obtain key where
    "(c1, c2) \<in> set (zip (with_signature key (children e1)) (with_signature key (children e2)))"
    by (auto simp: recursion_pairs_def Let_def getitem_group)
  then have "c1 \<in> set (with_signature key (children e1))"
    and "c2 \<in> set (with_signature key (children e2))"
    by (auto dest: set_zip_leftD set_zip_rightD)
  then show ?thesis
    using set_with_signature by blast
qed

lemma pair_induct [case_names pair]:
  assumes "\<And>e1 e2. (\<And>c1 c2. c1 \<in> set (children e1) \<Longrightarrow> c2 \<in> set (children e2) \<Longrightarrow> P c1 c2)
     \<Longrightarrow> P e1 e2"
  shows "P e1 e2"
proof (induction e1 arbitrary: e2)
  case (Element t a x cs)
  show ?case
    by (rule assms) (simp add: Element.IH)
qed

lemma compare_append:
  "compare_elements_unordered uo io e1 e2 (d, m) p =
     (d @ differences_of uo io e1 e2 p, m @ matches_of uo io e1 e2 p)"
proof (induction e1 e2 arbitrary: d m p rule: pair_induct)
  case (pair e1 e2)
  show ?case
  proof (cases "tag e1 = tag e2")
    case False
    then show ?thesis
      by (simp add: differences_of_def matches_of_def compare_elements_unordered.simps)
  next
    case True
    let ?loc = "p @ lit ''/'' @ tag e1"
    let ?f = "\<lambda>st (child1, child2). compare_elements_unordered uo io child1 child2 st ?loc"
    let ?ps = "recursion_pairs io e1 e2"
    have loop: "foldl ?f (d, m) ?ps =
        (d @ concat (map (\<lambda>(c1, c2). differences_of uo io c1 c2 ?loc) ?ps),
         m @ concat (map (\<lambda>(c1, c2). matches_of uo io c1 c2 ?loc) ?ps))" for d m
      by (rule foldl_pairs_logs) (use pair.IH in_recursion_pairs in auto)
    obtain ad am where a: "compare_attrib e1 e2 ?loc ([], []) = (ad, am)"
      by (cases "compare_attrib e1 e2 ?loc ([], [])")
    obtain rd rm where r:
      "reconcile uo (group (children e1)) (group (children e2)) ?loc ([], []) = (rd, rm)"
      by (cases "reconcile uo (group (children e1)) (group (children e2)) ?loc ([], [])")
    have st: "reconcile uo (group (children e1)) (group (children e2)) ?loc
        (compare_attrib e1 e2 ?loc (d, m @ [MatchingTags p (tag e1)])) =
        (d @ ad @ rd, m @ [MatchingTags p (tag e1)] @ am @ rd')" if "rd' = rm" for d m rd'
      using that a r
      by (subst compare_attrib_append, subst reconcile_append) simp
    show ?thesis
      unfolding differences_of_def matches_of_def
      by (simp only: compare_loops [OF True] st [OF refl] loop) simp
  qed
qed

section \<open>The logs of one call\<close>

lemma differences_of_unfold:
  "differences_of uo io e1 e2 p =
     (if tag e1 \<noteq> tag e2 then [DifferentTags p (tag e1) (tag e2)]
      else fst (compare_attrib e1 e2 (p @ lit ''/'' @ tag e1) ([], [])) @
           fst (reconcile uo (group (children e1)) (group (children e2))
                  (p @ lit ''/'' @ tag e1) ([], [])) @
           concat (map (\<lambda>(c1, c2). differences_of uo io c1 c2 (p @ lit ''/'' @ tag e1))
                     (recursion_pairs io e1 e2)))"
proof (cases "tag e1 = tag e2")
  case False
  then show ?thesis by (simp add: differences_of_def compare_elements_unordered.simps)
next
  case True
  let ?loc = "p @ lit ''/'' @ tag e1"
  have "foldl (\<lambda>st (child1, child2). compare_elements_unordered uo io child1 child2 st ?loc)
      (d, m) ps =
      (d @ concat (map (\<lambda>(c1, c2). differences_of uo io c1 c2 ?loc) ps),
       m @ concat (map (\<lambda>(c1, c2). matches_of uo io c1 c2 ?loc) ps))" for d m ps
    by (rule foldl_pairs_logs) (simp add: compare_append)
  then show ?thesis
    unfolding differences_of_def [of uo io e1 e2 p]
    by (subst compare_loops [OF True], subst compare_attrib_append, subst reconcile_append)
       (simp add: True)
qed

lemma matches_of_unfold:
  "matches_of uo io e1 e2 p =
     (if tag e1 \<noteq> tag e2 then []
      else MatchingTags p (tag e1) #
           snd (compare_attrib e1 e2 (p @ lit ''/'' @ tag e1) ([], [])) @
           snd (reconcile uo (group (children e1)) (group (children e2))
                  (p @ lit ''/'' @ tag e1) ([], [])) @
           concat (map (\<lambda>(c1, c2). matches_of uo io c1 c2 (p @ lit ''/'' @ tag e1))
                     (recursion_pairs io e1 e2)))"
proof (cases "tag e1 = tag e2")
  case False
  then show ?thesis by (simp add: matches_of_def compare_elements_unordered.simps)
next
  case True
  let ?loc = "p @ lit ''/'' @ tag e1"
  have "foldl (\<lambda>st (child1, child2). compare_elements_unordered uo io child1 child2 st ?loc)
      (d, m) ps =
      (d @ concat (map (\<lambda>(c1, c2). differences_of uo io c1 c2 ?loc) ps),
       m @ concat (map (\<lambda>(c1, c2). matches_of uo io c1 c2 ?loc) ps))" for d m ps
    by (rule foldl_pairs_logs) (simp add: compare_append)
  then show ?thesis
    unfolding matches_of_def [of uo io e1 e2 p]
    by (subst compare_loops [OF True], subst compare_attrib_append, subst reconcile_append)
       (simp add: True)
qed

lemma dict_eq_iff:
  assumes "distinct (map fst a)" and "distinct (map fst b)"
  shows "dict_eq a b \<longleftrightarrow> set a = set b"
proof
  assume "dict_eq a b"
  then have len: "length a = length b" and sub: "set a \<subseteq> set b"
    using assms by (auto simp: dict_eq_def list_all_iff)
  have "distinct a" and "distinct b"
    using assms by (auto simp: distinct_map)
  then have "card (set a) = card (set b)"
    using len by (simp add: distinct_card)
  with sub show "set a = set b"
    by (simp add: card_subset_eq)
next
  assume eq: "set a = set b"
  have "distinct a" and "distinct b"
    using assms by (auto simp: distinct_map)
  then have "length a = length b"
    using eq by (metis distinct_card)
  then show "dict_eq a b"
    using assms eq by (auto simp: dict_eq_def list_all_iff)
qed

lemma dict_eq_refl: "distinct (map fst a) \<Longrightarrow> dict_eq a a"
  by (simp add: dict_eq_iff)

lemma dict_eq_sym:
  "distinct (map fst a) \<Longrightarrow> distinct (map fst b) \<Longrightarrow> dict_eq a b = dict_eq b a"
  by (auto simp: dict_eq_iff)

lemma well_formed_attrib: "well_formed e \<Longrightarrow> distinct (map fst (attrib e))"
  by (cases e) simp

lemma well_formed_child: "well_formed e \<Longrightarrow> c \<in> set (children e) \<Longrightarrow> well_formed c"
  by (cases e) (simp add: list_all_iff)

lemma valid_union_set:
  "valid_union uo \<Longrightarrow>
   set (uo (keys (group cs1)) (keys (group cs2))) =
     element_signature ` set cs1 \<union> element_signature ` set cs2"
  by (simp add: valid_union_def set_keys_group)

lemma valid_inter_set:
  "valid_inter io \<Longrightarrow>
   set (io (keys (group cs1)) (keys (group cs2))) =
     element_signature ` set cs1 \<inter> element_signature ` set cs2"
  by (simp add: valid_inter_def set_keys_group)

lemma reconcile_differences:
  assumes "valid_union uo"
  shows "fst (reconcile uo (group cs1) (group cs2) loc ([], [])) =
     filter is_difference
       (map (step5_record (map element_signature cs1) (map element_signature cs2) loc)
          (uo (keys (group cs1)) (keys (group cs2))))"
  by (subst reconcile_group) (simp_all add: valid_union_set [OF assms])

lemma self_recursion_pairs:
  assumes "(c1, c2) \<in> set (recursion_pairs io e e)"
  shows "c1 = c2 \<and> c1 \<in> set (children e)"
proof -
  from assms obtain key where
    "(c1, c2) \<in> set (zip (with_signature key (children e)) (with_signature key (children e)))"
    by (auto simp: recursion_pairs_def Let_def getitem_group)
  then have "c1 = c2" and "c1 \<in> set (with_signature key (children e))"
    by (auto simp: zip_same)
  then show ?thesis
    using set_with_signature by blast
qed

lemma self_differences:
  assumes "valid_union uo"
  shows "well_formed e \<Longrightarrow> differences_of uo io e e p = []"
proof (induction e arbitrary: p)
  case (Element t a x cs)
  let ?e = "Element t a x cs"
  have attr: "fst (compare_attrib ?e ?e loc ([], [])) = []" for loc
    using Element.prems by (simp add: compare_attrib_def dict_eq_refl)
  have rec: "fst (reconcile uo (group cs) (group cs) loc ([], [])) = []" for loc
    by (simp add: reconcile_differences [OF assms] filter_empty_conv step5_record_def
        valid_union_set [OF assms])
  have kids: "differences_of uo io c1 c2 loc = []"
    if "(c1, c2) \<in> set (recursion_pairs io ?e ?e)" for c1 c2 loc
  proof -
    from that have "c1 = c2" and "c1 \<in> set cs"
      by (auto dest: self_recursion_pairs)
    moreover have "well_formed c1"
      using Element.prems \<open>c1 \<in> set cs\<close> by (simp add: list_all_iff)
    ultimately show ?thesis
      using Element.IH by simp
  qed
  show ?case
    by (subst differences_of_unfold) (auto simp: attr rec kids)
qed

lemma self_matches: "matches_of uo io e e p \<noteq> []"
  by (subst matches_of_unfold) simp

lemma text_blind:
  "compare_elements_unordered uo io (Element t1 a1 x1 cs1) (Element t2 a2 x2 cs2) st p =
   compare_elements_unordered uo io (Element t1 a1 y1 cs1) (Element t2 a2 y2 cs2) st p"
  by (cases st) (simp add: compare_elements_unordered.simps compare_attrib_def Let_def)

lemma valid_union_in_order: "valid_union union_in_order"
  by (auto simp: valid_union_def union_in_order_def)

lemma valid_inter_in_order: "valid_inter inter_in_order"
  by (auto simp: valid_inter_def inter_in_order_def)

lemma well_formed_sample: "well_formed sample"
  by (simp add: sample_def leaf_def node_def lit_def)

lemma sort_attrib:
  assumes "distinct (map fst a)"
  shows "sort a = sorted_list_of_set (Map.graph (map_of a))"
proof -
  have "distinct a"
    using assms by (simp add: distinct_map)
  then have "sort a = sorted_list_of_set (set a)"
    by (simp add: sorted_list_of_set_sort_remdups distinct_remdups_id)
  then show ?thesis
    using assms by (simp add: graph_map_of_if_distinct_dom)
qed

lemma length_positional_pairs:
  "length (positional_pairs cs1 cs2 key) =
     min (count_list (map element_signature cs1) key) (count_list (map element_signature cs2) key)"
  by (simp add: positional_pairs_def length_with_signature)

lemma recursion_pairs_positional:
  "recursion_pairs io e1 e2 =
     concat (map (positional_pairs (children e1) (children e2))
       (io (keys (group (children e1))) (keys (group (children e2)))))"
  unfolding recursion_pairs_def Let_def getitem_group positional_pairs_def
  by (subst zip_positional) (rule refl)

lemma tag_sample_other: "tag sample = tag other"
  by (simp add: sample_def other_def)

section \<open>Exchanging the two arguments\<close>

lemma is_difference_mirror: "is_difference (mirror r) = is_difference r"
  by (cases r) simp_all

lemma step5_record_mirror:
  "step5_record sigs2 sigs1 loc key = mirror (step5_record sigs1 sigs2 loc key)"
  by (auto simp: step5_record_def)

lemma filter_mirror:
  "filter is_difference (map mirror rs) = map mirror (filter is_difference rs)"
  by (induction rs) (simp_all add: is_difference_mirror)

lemma mset_concat_map_perm:
  assumes "mset xs = mset ys"
  shows "mset (concat (map f xs)) = mset (concat (map f ys))"
proof -
  have "mset (concat (map f zs)) = sum_mset (image_mset (\<lambda>z. mset (f z)) (mset zs))" for zs
    by (induction zs) simp_all
  then show ?thesis
    using assms by simp
qed

lemma mset_concat_map_image:
  assumes "\<And>x. x \<in> set xs \<Longrightarrow> mset (f x) = image_mset g (mset (h x))"
  shows "mset (concat (map f xs)) = image_mset g (mset (concat (map h xs)))"
  using assms by (induction xs) simp_all

lemma concat_map_concat:
  "concat (map f (concat xss)) = concat (map (\<lambda>xs. concat (map f xs)) xss)"
  by (induction xss) simp_all

lemma mirror_differences:
  assumes uo: "valid_union uo" and io: "valid_inter io"
  shows "well_formed e1 \<Longrightarrow> well_formed e2 \<Longrightarrow>
     mset (differences_of uo io e2 e1 p) = image_mset mirror (mset (differences_of uo io e1 e2 p))"
proof (induction e1 e2 arbitrary: p rule: pair_induct)
  case (pair e1 e2)
  note wf1 = \<open>well_formed e1\<close> and wf2 = \<open>well_formed e2\<close>
  show ?case
  proof (cases "tag e1 = tag e2")
    case False
    then show ?thesis
      by (simp add: differences_of_unfold [of uo io e1 e2 p] differences_of_unfold [of uo io e2 e1 p])
  next
    case True
    let ?loc = "p @ lit ''/'' @ tag e1"
    let ?s1 = "map element_signature (children e1)"
    let ?s2 = "map element_signature (children e2)"
    let ?k1 = "keys (group (children e1))"
    let ?k2 = "keys (group (children e2))"
    have attr: "fst (compare_attrib e2 e1 ?loc ([], [])) =
        map mirror (fst (compare_attrib e1 e2 ?loc ([], [])))"
      using dict_eq_sym [OF well_formed_attrib [OF wf1] well_formed_attrib [OF wf2]]
      by (simp add: compare_attrib_def)
    have "mset (uo ?k2 ?k1) = mset (uo ?k1 ?k2)"
      using uo by (subst set_eq_iff_mset_eq_distinct [symmetric]) (auto simp: valid_union_def)
    then have "mset (map (step5_record ?s1 ?s2 ?loc) (uo ?k2 ?k1)) =
        mset (map (step5_record ?s1 ?s2 ?loc) (uo ?k1 ?k2))"
      by simp
    then have same: "mset (filter is_difference (map (step5_record ?s1 ?s2 ?loc) (uo ?k2 ?k1))) =
        mset (filter is_difference (map (step5_record ?s1 ?s2 ?loc) (uo ?k1 ?k2)))"
      by (simp only: mset_filter)
    have "map (step5_record ?s2 ?s1 ?loc) (uo ?k2 ?k1) =
        map mirror (map (step5_record ?s1 ?s2 ?loc) (uo ?k2 ?k1))"
      by (simp add: step5_record_mirror [of ?s2 ?s1])
    then have "fst (reconcile uo (group (children e2)) (group (children e1)) ?loc ([], [])) =
        map mirror (filter is_difference (map (step5_record ?s1 ?s2 ?loc) (uo ?k2 ?k1)))"
      by (simp only: reconcile_differences [OF uo] filter_mirror)
    then have "mset (fst (reconcile uo (group (children e2)) (group (children e1)) ?loc ([], []))) =
        image_mset mirror
          (mset (filter is_difference (map (step5_record ?s1 ?s2 ?loc) (uo ?k2 ?k1))))"
      by (simp only: mset_map)
    then have rec: "mset (fst (reconcile uo (group (children e2)) (group (children e1)) ?loc ([], []))) =
        image_mset mirror
          (mset (fst (reconcile uo (group (children e1)) (group (children e2)) ?loc ([], []))))"
      by (simp only: same reconcile_differences [OF uo])
    let ?D12 = "\<lambda>(c1, c2). differences_of uo io c1 c2 ?loc"
    let ?D21 = "\<lambda>(c2, c1). differences_of uo io c2 c1 ?loc"
    let ?Z12 = "\<lambda>key. zip (with_signature key (children e1)) (with_signature key (children e2))"
    let ?Z21 = "\<lambda>key. zip (with_signature key (children e2)) (with_signature key (children e1))"
    have perm: "mset (io ?k2 ?k1) = mset (io ?k1 ?k2)"
      using io by (subst set_eq_iff_mset_eq_distinct [symmetric]) (auto simp: valid_inter_def)
    have per_key: "mset (concat (map ?D21 (?Z21 key))) =
        image_mset mirror (mset (concat (map ?D12 (?Z12 key))))" for key
    proof -
      have "?Z21 key = map (\<lambda>(c1, c2). (c2, c1)) (?Z12 key)"
        by (rule zip_commute)
      then have "concat (map ?D21 (?Z21 key)) =
          concat (map (\<lambda>(c1, c2). differences_of uo io c2 c1 ?loc) (?Z12 key))"
        by (simp add: case_prod_unfold comp_def)
      moreover have "mset (concat (map (\<lambda>(c1, c2). differences_of uo io c2 c1 ?loc) (?Z12 key))) =
          image_mset mirror (mset (concat (map ?D12 (?Z12 key))))"
      proof (rule mset_concat_map_image)
        fix pr assume mem: "pr \<in> set (?Z12 key)"
        obtain c1 c2 where pr: "pr = (c1, c2)"
          by (cases pr)
        from mem have "c1 \<in> set (with_signature key (children e1))"
          and "c2 \<in> set (with_signature key (children e2))"
          unfolding pr by (auto dest: set_zip_leftD set_zip_rightD)
        then have c1: "c1 \<in> set (children e1)" and c2: "c2 \<in> set (children e2)"
          using set_with_signature by blast+
        have "mset (differences_of uo io c2 c1 ?loc) =
            image_mset mirror (mset (differences_of uo io c1 c2 ?loc))"
          using pair.IH [OF c1 c2] well_formed_child [OF wf1 c1] well_formed_child [OF wf2 c2]
          by simp
        then show "mset (case pr of (c1, c2) \<Rightarrow> differences_of uo io c2 c1 ?loc) =
            image_mset mirror (mset (case pr of (c1, c2) \<Rightarrow> differences_of uo io c1 c2 ?loc))"
          by (simp add: pr)
      qed
      ultimately show ?thesis by simp
    qed
    have "mset (concat (map ?D21 (recursion_pairs io e2 e1))) =
        mset (concat (map (\<lambda>key. concat (map ?D21 (?Z21 key))) (io ?k2 ?k1)))"
      by (simp add: recursion_pairs_def Let_def getitem_group concat_map_concat comp_def)
    also have "\<dots> = mset (concat (map (\<lambda>key. concat (map ?D21 (?Z21 key))) (io ?k1 ?k2)))"
      by (rule mset_concat_map_perm [OF perm])
    also have "\<dots> = image_mset mirror
        (mset (concat (map (\<lambda>key. concat (map ?D12 (?Z12 key))) (io ?k1 ?k2))))"
      by (rule mset_concat_map_image) (rule per_key)
    also have "\<dots> = image_mset mirror (mset (concat (map ?D12 (recursion_pairs io e1 e2))))"
      by (simp add: recursion_pairs_def Let_def getitem_group concat_map_concat comp_def)
    finally have kids: "mset (concat (map ?D21 (recursion_pairs io e2 e1))) =
        image_mset mirror (mset (concat (map ?D12 (recursion_pairs io e1 e2))))" .
    have "mset (differences_of uo io e2 e1 p) =
        mset (fst (compare_attrib e2 e1 ?loc ([], []))) +
        mset (fst (reconcile uo (group (children e2)) (group (children e1)) ?loc ([], []))) +
        mset (concat (map ?D21 (recursion_pairs io e2 e1)))"
      by (simp add: differences_of_unfold [of uo io e2 e1 p] True)
    moreover have "mset (differences_of uo io e1 e2 p) =
        mset (fst (compare_attrib e1 e2 ?loc ([], []))) +
        mset (fst (reconcile uo (group (children e1)) (group (children e2)) ?loc ([], []))) +
        mset (concat (map ?D12 (recursion_pairs io e1 e2)))"
      by (simp add: differences_of_unfold [of uo io e1 e2 p] True)
    ultimately show ?thesis
      by (simp only: attr rec kids mset_map image_mset_union)
  qed
qed

lemma well_formed_other: "well_formed other"
  by (simp add: other_def leaf_def node_def lit_def)

section \<open>Runs on small documents\<close>

lemma distinct_single: "distinct xs \<Longrightarrow> set xs = {k} \<Longrightarrow> xs = [k]"
  by (cases xs) (auto simp: subset_singleton_iff dest!: subset_singletonD)

lemma union_single: "valid_union uo \<Longrightarrow> set k1 \<union> set k2 = {k} \<Longrightarrow> uo k1 k2 = [k]"
  by (rule distinct_single) (simp_all add: valid_union_def)

lemma union_none: "valid_union uo \<Longrightarrow> uo [] [] = []"
  by (metis valid_union_def set_empty2 sup_bot.right_neutral empty_set)

lemma inter_single: "valid_inter io \<Longrightarrow> set k1 \<inter> set k2 = {k} \<Longrightarrow> io k1 k2 = [k]"
  by (rule distinct_single) (simp_all add: valid_inter_def)

lemma inter_none: "valid_inter io \<Longrightarrow> set k1 \<inter> set k2 = {} \<Longrightarrow> io k1 k2 = []"
  by (metis valid_inter_def set_empty2)

lemma compare_leaves:
  assumes "valid_union uo" and "valid_inter io"
  shows "compare_elements_unordered uo io (leaf t) (leaf t) (d, m) p =
     (d, m @ [MatchingTags p (lit t), MatchingAttributes (p @ lit ''/'' @ lit t) []])"
  using union_none [OF assms(1)] inter_none [OF assms(2), of "[]" "[]"]
  by (simp add: compare_elements_unordered.simps leaf_def Let_def compare_attrib_def
      dict_eq_def group_def keys_def reconcile_def)

section \<open>Reordering the children of one node\<close>

text \<open>
  The comparison finds no difference between a well-formed tree and the same tree with the
  children of one node reordered, as long as the children with equal signatures keep their
  relative order.
\<close>

lemma stable_reorder_with_signature:
  assumes "stable_reorder cs cs'"
  shows "with_signature k cs' = with_signature k cs"
proof (cases "k \<in> element_signature ` set cs")
  case True
  then show ?thesis
    using assms by (auto simp: stable_reorder_def list_all_iff)
next
  case False
  moreover have "set cs' = set cs"
    using assms by (auto simp: stable_reorder_def dest: mset_eq_setD)
  ultimately have "with_signature k cs' = []" and "with_signature k cs = []"
    by (auto simp: with_signature_def filter_empty_conv)
  then show ?thesis
    by simp
qed

lemma equal_counts_match:
  assumes "\<And>k. count_list sigs1 k = count_list sigs2 k"
  shows "\<not> is_difference (step5_record sigs1 sigs2 loc key)"
proof -
  have "key \<in> set sigs1 \<longleftrightarrow> key \<in> set sigs2"
    using assms [of key] by (metis count_list_0_iff)
  then show ?thesis
    using assms by (simp add: step5_record_def)
qed

lemma no_reconcile_differences:
  assumes "valid_union uo"
    and "\<And>k. length (with_signature k cs1) = length (with_signature k cs2)"
  shows "fst (reconcile uo (group cs1) (group cs2) loc ([], [])) = []"
  using assms(2)
  by (simp add: reconcile_differences [OF assms(1)] filter_empty_conv equal_counts_match
      length_with_signature)

lemma differences_of_empty:
  assumes "valid_union uo" and "tag e1 = tag e2"
    and "dict_eq (attrib e1) (attrib e2)"
    and "\<And>k. length (with_signature k (children e1)) = length (with_signature k (children e2))"
    and "\<And>c1 c2 k. (c1, c2) \<in> set (zip (with_signature k (children e1))
            (with_signature k (children e2))) \<Longrightarrow>
          differences_of uo io c1 c2 (p @ lit ''/'' @ tag e1) = []"
  shows "differences_of uo io e1 e2 p = []"
proof -
  have "differences_of uo io c1 c2 (p @ lit ''/'' @ tag e1) = []"
    if "(c1, c2) \<in> set (recursion_pairs io e1 e2)" for c1 c2
    using that assms(5) by (auto simp: recursion_pairs_def Let_def getitem_group)
  then have "concat (map (\<lambda>(c1, c2). differences_of uo io c1 c2 (p @ lit ''/'' @ tag e1))
      (recursion_pairs io e1 e2)) = []"
    by auto
  then show ?thesis
    using assms(2,3) no_reconcile_differences [OF assms(1) assms(4)]
    by (simp add: differences_of_unfold [of uo io e1 e2 p] compare_attrib_def)
qed

lemma reordered_once_signature:
  "reordered_once c c' \<Longrightarrow> tag c' = tag c \<and> attrib c' = attrib c \<and> etext c' = etext c"
  by (induction rule: reordered_once.induct) simp_all

lemma order_insensitive_when_stable:
  assumes "valid_union uo"
  shows "reordered_once T T' \<Longrightarrow> well_formed T \<Longrightarrow> differences_of uo io T T' p = []"
proof (induction arbitrary: p rule: reordered_once.induct)
  case (at_node cs cs' t a x)
  have same: "with_signature k cs' = with_signature k cs" for k
    by (rule stable_reorder_with_signature [OF at_node.hyps])
  show ?case
  proof (rule differences_of_empty [OF assms])
    show "dict_eq (attrib (Element t a x cs)) (attrib (Element t a x cs'))"
      using at_node.prems by (simp add: dict_eq_refl)
  next
    fix c1 c2 k
    assume "(c1, c2) \<in> set (zip (with_signature k (children (Element t a x cs)))
        (with_signature k (children (Element t a x cs'))))"
    then have "c1 = c2" and "c1 \<in> set cs"
      using set_with_signature [of k cs] by (auto simp: same zip_same)
    moreover have "well_formed c1"
      using at_node.prems \<open>c1 \<in> set cs\<close> by (simp add: list_all_iff)
    ultimately show "differences_of uo io c1 c2
        (p @ lit ''/'' @ tag (Element t a x cs)) = []"
      using self_differences [OF assms] by simp
  qed (simp_all add: same)
next
  case (below c c' t a x l r)
  have sig: "element_signature c' = element_signature c"
    using reordered_once_signature [OF below.hyps]
    by (simp add: element_signature_def text_or_empty_def)
  have wfc: "well_formed c" and wfl: "\<And>d. d \<in> set l \<union> set r \<Longrightarrow> well_formed d"
    using below.prems by (auto simp: list_all_iff)
  have split: "zip (with_signature k (l @ c # r)) (with_signature k (l @ c' # r)) =
      zip (with_signature k l) (with_signature k l) @
      (if element_signature c = k then [(c, c')] else []) @
      zip (with_signature k r) (with_signature k r)" for k
    by (simp add: with_signature_def sig)
  show ?case
  proof (rule differences_of_empty [OF assms])
    show "dict_eq (attrib (Element t a x (l @ c # r))) (attrib (Element t a x (l @ c' # r)))"
      using below.prems by (simp add: dict_eq_refl)
  next
    fix c1 c2 k
    assume "(c1, c2) \<in> set (zip (with_signature k (children (Element t a x (l @ c # r))))
        (with_signature k (children (Element t a x (l @ c' # r)))))"
    then consider "c1 = c2" and "c1 \<in> set l \<union> set r" | "c1 = c" and "c2 = c'"
      using set_with_signature [of k l] set_with_signature [of k r]
      by (auto simp: split zip_same split: if_splits)
    then show "differences_of uo io c1 c2
        (p @ lit ''/'' @ tag (Element t a x (l @ c # r))) = []"
    proof cases
      case 1
      then show ?thesis
        using self_differences [OF assms wfl] by simp
    next
      case 2
      then show ?thesis
        using below.IH [OF wfc] by simp
    qed
  qed (simp_all add: with_signature_def sig)
qed

section \<open>Trimming\<close>

text \<open>\<open>strip\<close> computes the trimmed text, and a string has one trimmed text only.\<close>

lemma strip_unique:
  assumes "trimmed_to s t"
  shows "strip s = t"
proof -
  from assms obtain l r where s: "s = l @ t @ r"
    and l: "\<forall>c\<in>set l. isspace c" and r: "\<forall>c\<in>set r. isspace c"
    and ends: "t = [] \<or> (\<not> isspace (hd t) \<and> \<not> isspace (last t))"
    by (auto simp: trimmed_to_def list_all_iff)
  show ?thesis
  proof (cases "t = []")
    case True
    then have "\<forall>c\<in>set s. isspace c"
      using s l r by auto
    then have d: "dropWhile isspace s = []"
      by (simp only: dropWhile_eq_Nil_conv)
    show ?thesis
      unfolding strip_def d using True by simp
  next
    case False
    then have h: "\<not> isspace (hd t)" and e: "\<not> isspace (last t)"
      using ends by auto
    have "dropWhile isspace s = dropWhile isspace (t @ r)"
      unfolding s by (rule dropWhile_append2) (use l in auto)
    also have "\<dots> = t @ r"
      using False h by (cases t) auto
    finally have front: "dropWhile isspace s = t @ r" .
    have "dropWhile isspace (rev r @ rev t) = dropWhile isspace (rev t)"
      by (rule dropWhile_append2) (use r in auto)
    then have "dropWhile isspace (rev (t @ r)) = dropWhile isspace (rev t)"
      by (simp only: rev_append)
    also have "\<dots> = rev t"
      using False e by (cases "rev t") (auto simp: last_rev [symmetric] hd_rev)
    finally show ?thesis
      by (simp add: strip_def front)
  qed
qed

lemma strip_trims: "trimmed_to s (strip s)"
proof -
  let ?u = "dropWhile isspace s"
  let ?t = "rev (dropWhile isspace (rev ?u))"
  have st: "strip s = ?t"
    by (simp add: strip_def)
  have "rev (takeWhile isspace (rev ?u) @ dropWhile isspace (rev ?u)) = rev (rev ?u)"
    by (simp only: takeWhile_dropWhile_id)
  then have "?t @ rev (takeWhile isspace (rev ?u)) = ?u"
    by (simp only: rev_append rev_rev_ident)
  then have u: "?u = ?t @ rev (takeWhile isspace (rev ?u))"
    by (rule sym)
  have "s = takeWhile isspace s @ ?u"
    by simp
  then have split: "s = takeWhile isspace s @ ?t @ rev (takeWhile isspace (rev ?u))"
    using u by simp
  have l: "list_all isspace (takeWhile isspace s)"
    by (auto simp: list_all_iff dest: set_takeWhileD)
  have r: "list_all isspace (rev (takeWhile isspace (rev ?u)))"
    by (auto simp: list_all_iff dest: set_takeWhileD)
  have ends: "\<not> isspace (hd ?t) \<and> \<not> isspace (last ?t)" if ne: "?t \<noteq> []"
  proof
    have "?u \<noteq> []"
    proof
      assume e: "?u = []"
      have "?t = []"
        unfolding e by simp
      with ne show False
        by (rule notE)
    qed
    then have "\<not> isspace (hd ?u)"
      by (rule hd_dropWhile)
    moreover have "hd ?u = hd ?t"
      using ne by (subst u) simp
    ultimately show "\<not> isspace (hd ?t)"
      by simp
    from ne have "dropWhile isspace (rev ?u) \<noteq> []"
      by simp
    then have "\<not> isspace (hd (dropWhile isspace (rev ?u)))"
      by (rule hd_dropWhile)
    then show "\<not> isspace (last ?t)"
      using ne by (simp add: last_rev)
  qed
  show ?thesis
    unfolding trimmed_to_def st using split l r ends by blast
qed

lemma trimmed_first_way:
  "trimmed_to (case etext first_way of None \<Rightarrow> [] | Some s \<Rightarrow> s) (lit ''hi'')"
proof -
  have "lit '' hi '' = lit '' '' @ lit ''hi'' @ lit '' ''"
    by (simp add: lit_def)
  moreover have "list_all isspace (lit '' '')"
    by (simp add: lit_def isspace_def)
  moreover have "\<not> isspace (hd (lit ''hi'')) \<and> \<not> isspace (last (lit ''hi''))"
    by (simp add: lit_def isspace_def)
  ultimately show ?thesis
    unfolding trimmed_to_def first_way_def by (simp only: element.sel option.case) blast
qed

lemma trimmed_second_way:
  "trimmed_to (case etext second_way of None \<Rightarrow> [] | Some s \<Rightarrow> s) (lit ''hi'')"
proof -
  have "lit ''hi'' = [] @ lit ''hi'' @ []"
    by simp
  moreover have "list_all isspace []"
    by simp
  moreover have "\<not> isspace (hd (lit ''hi'')) \<and> \<not> isspace (last (lit ''hi''))"
    by (simp add: lit_def isspace_def)
  ultimately show ?thesis
    unfolding trimmed_to_def second_way_def by (simp only: element.sel option.case) blast
qed

lemma signature_leaf_c: "element_signature (leaf ''c'') = (lit ''c'', [], [])"
  by (simp add: element_signature_def leaf_def text_or_empty_def strip_def)

lemma signature_c_nested: "element_signature c_nested = element_signature (leaf ''c'')"
  by (simp add: c_nested_def node_def leaf_def element_signature_def text_or_empty_def)

lemma signature_c_blank: "element_signature c_blank = element_signature (leaf ''c'')"
  by (simp add: c_blank_def leaf_def element_signature_def text_or_empty_def strip_def
      isspace_def lit_def)

lemma signature_c_leaf: "element_signature (leaf ''c'') = element_signature (leaf ''c'')"
  by (rule refl)

lemma distinct_id_attrib: "distinct (map fst [(lit ''id'', lit ''7'')])"
  by simp

section \<open>The claims\<close>

text \<open>
  C4. When the tags of the two nodes differ, the call appends exactly one
  \<open>DifferentTags\<close> entry, for the current path, to the differences, appends nothing
  to the matches and returns: the result does not depend on the attributes or on the
  children of either node. For \<^verbatim>\<open><a/>\<close> against \<^verbatim>\<open><b/>\<close> at the root this is one
  difference and no match.
\<close>

theorem tag_mismatch_short_circuit:
  assumes "tag element1 \<noteq> tag element2"
  shows "compare_elements_unordered uo io element1 element2 (differences, matches) path =
     (differences @ [DifferentTags path (tag element1) (tag element2)], matches)"
  using assms by (simp add: compare_elements_unordered.simps)

theorem tag_mismatch_short_circuit_witness:
  "tag (leaf ''a'') \<noteq> tag (leaf ''b'') \<and>
   compare_elements_unordered union_in_order inter_in_order (leaf ''a'') (leaf ''b'') ([], [])
     (lit ''/'') = ([DifferentTags (lit ''/'') (lit ''a'') (lit ''b'')], [])"
proof -
  have ne: "tag (leaf ''a'') \<noteq> tag (leaf ''b'')"
    by (simp add: leaf_def lit_def)
  from tag_mismatch_short_circuit [OF ne, of union_in_order inter_in_order "[]" "[]" "lit ''/''"]
  show ?thesis
    using ne by (simp add: leaf_def)
qed

text \<open>
  C5. Comparing a well-formed tree with itself, from two empty logs, leaves the
  differences empty and the matches not empty, whatever the path and whatever order the
  keys are visited in.
\<close>

theorem self_comparison:
  assumes "valid_union uo" and "well_formed T"
  shows "fst (compare_elements_unordered uo io T T ([], []) path) = [] \<and>
         snd (compare_elements_unordered uo io T T ([], []) path) \<noteq> []"
  using self_differences [OF assms] self_matches
  by (simp add: differences_of_def matches_of_def)

theorem self_comparison_witness:
  "valid_union union_in_order \<and> well_formed sample \<and>
   fst (compare_elements_unordered union_in_order inter_in_order sample sample ([], [])
     (lit ''/'')) = [] \<and>
   snd (compare_elements_unordered union_in_order inter_in_order sample sample ([], [])
     (lit ''/'')) \<noteq> []"
  using self_comparison [OF valid_union_in_order well_formed_sample]
    valid_union_in_order well_formed_sample
  by simp

text \<open>
  C7. When both documents were parsed, \<open>compare_xml_files\<close> prints the line
  \<open>identical_msg\<close> exactly when the differences of the comparison of the two roots are
  empty, and the line \<open>different_msg\<close> exactly when they are not; the matches play no
  part.
\<close>

theorem outcome_classification:
  "(console (compare_xml_files uo io (Some root1) (Some root2)) = [identical_msg] \<longleftrightarrow>
      fst (compare_elements_unordered uo io root1 root2 ([], []) (lit ''/'')) = []) \<and>
   (console (compare_xml_files uo io (Some root1) (Some root2)) = [different_msg] \<longleftrightarrow>
      fst (compare_elements_unordered uo io root1 root2 ([], []) (lit ''/'')) \<noteq> [])"
  by (simp add: compare_xml_files_def identical_msg_def different_msg_def split: prod.splits)

text \<open>
  C9. The call never reads the text of the two nodes it is given: replacing the two texts
  by any others leaves its result as it is. So two well-formed trees that differ in the
  text of the root only have no difference, and \<open>compare_xml_files\<close> reports them
  identical.
\<close>

theorem root_text_blindness:
  assumes "valid_union uo" and "well_formed (Element t a x cs)"
  shows "(\<forall>t1 a1 x1 cs1 t2 a2 x2 cs2 y1 y2 st p.
            compare_elements_unordered uo io (Element t1 a1 x1 cs1) (Element t2 a2 x2 cs2) st p =
            compare_elements_unordered uo io (Element t1 a1 y1 cs1) (Element t2 a2 y2 cs2) st p) \<and>
         fst (compare_elements_unordered uo io (Element t a x cs) (Element t a y cs) ([], [])
           (lit ''/'')) = [] \<and>
         console (compare_xml_files uo io (Some (Element t a x cs)) (Some (Element t a y cs))) =
           [identical_msg]"
proof -
  have blind: "compare_elements_unordered uo io (Element t a x cs) (Element t a y cs) st p =
      compare_elements_unordered uo io (Element t a x cs) (Element t a x cs) st p" for st p
    by (rule text_blind)
  have "fst (compare_elements_unordered uo io (Element t a x cs) (Element t a x cs) ([], [])
      (lit ''/'')) = []"
    using self_differences [OF assms] by (simp add: differences_of_def)
  then have none: "fst (compare_elements_unordered uo io (Element t a x cs) (Element t a y cs)
      ([], []) (lit ''/'')) = []"
    by (simp add: blind)
  then have "console (compare_xml_files uo io (Some (Element t a x cs))
      (Some (Element t a y cs))) = [identical_msg]"
    by (auto simp: compare_xml_files_def split: prod.splits)
  with none show ?thesis
    using text_blind by blast
qed

theorem root_text_blindness_witness:
  "valid_union union_in_order \<and>
   well_formed (Element (lit ''r'') [] (Some (lit ''one'')) [leaf ''a'']) \<and>
   compare_elements_unordered union_in_order inter_in_order
     (Element (lit ''r'') [] (Some (lit ''one'')) [leaf ''a''])
     (Element (lit ''s'') [] None []) ([], []) (lit ''/'') =
   compare_elements_unordered union_in_order inter_in_order
     (Element (lit ''r'') [] (Some (lit ''two'')) [leaf ''a''])
     (Element (lit ''s'') [] (Some (lit ''three'')) []) ([], []) (lit ''/'') \<and>
   fst (compare_elements_unordered union_in_order inter_in_order
     (Element (lit ''r'') [] (Some (lit ''one'')) [leaf ''a''])
     (Element (lit ''r'') [] (Some (lit ''two'')) [leaf ''a'']) ([], []) (lit ''/'')) = [] \<and>
   console (compare_xml_files union_in_order inter_in_order
     (Some (Element (lit ''r'') [] (Some (lit ''one'')) [leaf ''a'']))
     (Some (Element (lit ''r'') [] (Some (lit ''two'')) [leaf ''a'']))) = [identical_msg]"
proof -
  have wf: "well_formed (Element (lit ''r'') [] (Some (lit ''one'')) [leaf ''a''])"
    by (simp add: leaf_def)
  from root_text_blindness [OF valid_union_in_order wf, of inter_in_order "Some (lit ''two'')"]
  show ?thesis
    using valid_union_in_order wf by simp
qed

text \<open>
  C6. The signature is a function of the tag, of the attributes as a mapping and of the
  trimmed text: two nodes with equal tags, with attribute lists (unique names, in any
  order) that are the same mapping, and with texts (the empty string for no text) that
  have the same trimmed text \<open>t\<close> have equal signatures, and the signature is the
  triple of the tag, the sorted list of the (name, value) pairs of the mapping, and
  \<open>t\<close>.
\<close>

theorem signature_deterministic:
  assumes "distinct (map fst (attrib e1))" and "distinct (map fst (attrib e2))"
    and "tag e1 = tag e2"
    and "map_of (attrib e1) = map_of (attrib e2)"
    and "trimmed_to (case etext e1 of None \<Rightarrow> [] | Some s \<Rightarrow> s) t"
    and "trimmed_to (case etext e2 of None \<Rightarrow> [] | Some s \<Rightarrow> s) t"
  shows "element_signature e1 = element_signature e2 \<and>
         element_signature e1 =
           (tag e1, sorted_list_of_set (Map.graph (map_of (attrib e1))), t)"
  using assms strip_unique [OF assms(5)] strip_unique [OF assms(6)]
  by (simp add: element_signature_def sort_attrib text_or_empty_def)

theorem signature_deterministic_witness:
  "distinct (map fst (attrib first_way)) \<and> distinct (map fst (attrib second_way)) \<and>
   tag first_way = tag second_way \<and>
   map_of (attrib first_way) = map_of (attrib second_way) \<and>
   trimmed_to (case etext first_way of None \<Rightarrow> [] | Some s \<Rightarrow> s) (lit ''hi'') \<and>
   trimmed_to (case etext second_way of None \<Rightarrow> [] | Some s \<Rightarrow> s) (lit ''hi'') \<and>
   element_signature first_way = element_signature second_way \<and>
   element_signature first_way =
     (tag first_way, sorted_list_of_set (Map.graph (map_of (attrib first_way))), lit ''hi'') \<and>
   element_signature first_way =
     (lit ''a'', [(lit ''k'', lit ''2''), (lit ''x'', lit ''1'')], lit ''hi'') \<and>
   element_signature second_way =
     (lit ''a'', [(lit ''k'', lit ''2''), (lit ''x'', lit ''1'')], lit ''hi'')"
proof -
  have d1: "distinct (map fst (attrib first_way))"
    by (simp add: first_way_def lit_def)
  have d2: "distinct (map fst (attrib second_way))"
    by (simp add: second_way_def lit_def)
  have t: "tag first_way = tag second_way"
    by (simp add: first_way_def second_way_def)
  have m: "map_of (attrib first_way) = map_of (attrib second_way)"
    by (auto simp: first_way_def second_way_def lit_def fun_eq_iff)
  have v1: "element_signature first_way =
      (lit ''a'', [(lit ''k'', lit ''2''), (lit ''x'', lit ''1'')], lit ''hi'')"
    by (simp add: first_way_def element_signature_def text_or_empty_def strip_def isspace_def
        lit_def)
  have v2: "element_signature second_way =
      (lit ''a'', [(lit ''k'', lit ''2''), (lit ''x'', lit ''1'')], lit ''hi'')"
    by (simp add: second_way_def element_signature_def text_or_empty_def strip_def isspace_def
        lit_def)
  note main = signature_deterministic [OF d1 d2 t m trimmed_first_way trimmed_second_way]
  show ?thesis
    by (intro conjI d1 d2 t m trimmed_first_way trimmed_second_way main [THEN conjunct1]
        main [THEN conjunct2] v1 v2)
qed

text \<open>
  C2. For two nodes with equal tags, the loop over the union of the keys visits every
  signature that occurs among the direct children of either node exactly once, and for
  each it appends the one record that the specification names for it
  (\<open>step5_record\<close>: missing in the second file, missing in the first file, different
  count with both counts, or matching element with the count), a difference to the
  differences and a match to the matches, after the entries of the attribute step. The
  records are computed from the signatures of the direct children only. The call is
  then the recursive descent from this state.
\<close>

theorem set_level_reconciliation:
  fixes uo io :: key_order and element1 element2 :: element
    and differences matches :: "line list" and path :: pystr
  defines "loc \<equiv> path @ lit ''/'' @ tag element1"
    and "visited \<equiv> uo (keys (group (children element1))) (keys (group (children element2)))"
  defines "records \<equiv>
      map (step5_record (map element_signature (children element1))
             (map element_signature (children element2)) loc) visited"
    and "st1 \<equiv>
      compare_attrib element1 element2 loc (differences, matches @ [MatchingTags path (tag element1)])"
  assumes "valid_union uo" and "tag element1 = tag element2"
  shows "distinct visited \<and>
         set visited =
           element_signature ` set (children element1) \<union>
           element_signature ` set (children element2) \<and>
         compare_elements_unordered uo io element1 element2 (differences, matches) path =
           foldl (\<lambda>st (child1, child2). compare_elements_unordered uo io child1 child2 st loc)
             (fst st1 @ filter is_difference records,
              snd st1 @ filter (\<lambda>r. \<not> is_difference r) records)
             (recursion_pairs io element1 element2)"
proof -
  have "distinct visited"
    using assms(5) by (simp add: visited_def valid_union_def)
  moreover have "set visited =
      element_signature ` set (children element1) \<union> element_signature ` set (children element2)"
    unfolding visited_def by (rule valid_union_set [OF assms(5)])
  moreover have "reconcile uo (group (children element1)) (group (children element2)) loc st1 =
      (fst st1 @ filter is_difference records,
       snd st1 @ filter (\<lambda>r. \<not> is_difference r) records)"
    unfolding records_def visited_def
    by (cases st1) (simp add: reconcile_group valid_union_set [OF assms(5)])
  ultimately show ?thesis
    using compare_loops [OF assms(6), of uo io differences matches path]
    by (simp add: loc_def st1_def)
qed

theorem set_level_reconciliation_witness:
  "valid_union union_in_order \<and> tag sample = tag other \<and>
   distinct (union_in_order (keys (group (children sample))) (keys (group (children other)))) \<and>
   set (union_in_order (keys (group (children sample))) (keys (group (children other)))) =
     element_signature ` set (children sample) \<union> element_signature ` set (children other) \<and>
   compare_elements_unordered union_in_order inter_in_order sample other ([], []) (lit ''/'') =
     foldl (\<lambda>st (child1, child2).
              compare_elements_unordered union_in_order inter_in_order child1 child2 st
                (lit ''/'' @ lit ''/'' @ tag sample))
       (fst (compare_attrib sample other (lit ''/'' @ lit ''/'' @ tag sample)
               ([], [] @ [MatchingTags (lit ''/'') (tag sample)])) @
        filter is_difference
          (map (step5_record (map element_signature (children sample))
                  (map element_signature (children other)) (lit ''/'' @ lit ''/'' @ tag sample))
             (union_in_order (keys (group (children sample))) (keys (group (children other))))),
        snd (compare_attrib sample other (lit ''/'' @ lit ''/'' @ tag sample)
               ([], [] @ [MatchingTags (lit ''/'') (tag sample)])) @
        filter (\<lambda>r. \<not> is_difference r)
          (map (step5_record (map element_signature (children sample))
                  (map element_signature (children other)) (lit ''/'' @ lit ''/'' @ tag sample))
             (union_in_order (keys (group (children sample))) (keys (group (children other))))))
       (recursion_pairs inter_in_order sample other)"
  by (rule conjI [OF valid_union_in_order conjI [OF tag_sample_other
      set_level_reconciliation [OF valid_union_in_order tag_sample_other]]])

text \<open>
  C3. For two nodes with equal tags, the recursive calls are exactly those on the
  pairs \<open>positional_pairs\<close> of the signatures that occur among the direct children
  of both nodes, each signature once: the i-th child with that signature of the first
  node with the i-th of the second, for i below the smaller of the two counts, with the
  path extended by the tag of the current element. Children beyond the smaller count and
  children whose signature occurs on one side only are in no pair.
\<close>

theorem recursive_descent:
  fixes uo io :: key_order and element1 element2 :: element
    and differences matches :: "line list" and path :: pystr
  defines "loc \<equiv> path @ lit ''/'' @ tag element1"
    and "common \<equiv> io (keys (group (children element1))) (keys (group (children element2)))"
  defines "st2 \<equiv>
      reconcile uo (group (children element1)) (group (children element2)) loc
        (compare_attrib element1 element2 loc
           (differences, matches @ [MatchingTags path (tag element1)]))"
  assumes "valid_inter io" and "tag element1 = tag element2"
  shows "distinct common \<and>
         set common =
           element_signature ` set (children element1) \<inter>
           element_signature ` set (children element2) \<and>
         (\<forall>key. length (positional_pairs (children element1) (children element2) key) =
            min (count_list (map element_signature (children element1)) key)
                (count_list (map element_signature (children element2)) key)) \<and>
         compare_elements_unordered uo io element1 element2 (differences, matches) path =
           foldl (\<lambda>st (child1, child2). compare_elements_unordered uo io child1 child2 st loc)
             st2
             (concat (map (positional_pairs (children element1) (children element2)) common))"
proof -
  have "distinct common"
    using assms(4) by (simp add: common_def valid_inter_def)
  moreover have "set common =
      element_signature ` set (children element1) \<inter> element_signature ` set (children element2)"
    unfolding common_def by (rule valid_inter_set [OF assms(4)])
  ultimately show ?thesis
    using compare_loops [OF assms(5), of uo io differences matches path]
    by (simp add: loc_def st2_def common_def length_positional_pairs recursion_pairs_positional)
qed

theorem recursive_descent_witness:
  "valid_inter inter_in_order \<and> tag sample = tag other \<and>
   distinct (inter_in_order (keys (group (children sample))) (keys (group (children other)))) \<and>
   set (inter_in_order (keys (group (children sample))) (keys (group (children other)))) =
     element_signature ` set (children sample) \<inter> element_signature ` set (children other) \<and>
   (\<forall>key. length (positional_pairs (children sample) (children other) key) =
      min (count_list (map element_signature (children sample)) key)
          (count_list (map element_signature (children other)) key)) \<and>
   compare_elements_unordered union_in_order inter_in_order sample other ([], []) (lit ''/'') =
     foldl (\<lambda>st (child1, child2).
              compare_elements_unordered union_in_order inter_in_order child1 child2 st
                (lit ''/'' @ lit ''/'' @ tag sample))
       (reconcile union_in_order (group (children sample)) (group (children other))
          (lit ''/'' @ lit ''/'' @ tag sample)
          (compare_attrib sample other (lit ''/'' @ lit ''/'' @ tag sample)
             ([], [] @ [MatchingTags (lit ''/'') (tag sample)])))
       (concat (map (positional_pairs (children sample) (children other))
          (inter_in_order (keys (group (children sample))) (keys (group (children other))))))"
  by (rule conjI [OF valid_inter_in_order conjI [OF tag_sample_other
      recursive_descent [OF valid_inter_in_order tag_sample_other]]])

text \<open>
  C10. For two well-formed nodes, the differences of the call with the arguments
  exchanged are, as a multiset, the mirror images of the differences of the call: missing
  in the second file and missing in the first file exchanged, the two counts of a count
  record exchanged (and the two tags and the two attribute dictionaries of the two other
  kinds). So the two calls append the same number of differences, and one leaves the
  differences empty exactly when the other does. The order of the entries may differ,
  since the keys may be visited in another order.
\<close>

theorem swap_symmetry:
  assumes "valid_union uo" and "valid_inter io" and "well_formed A" and "well_formed B"
  shows "mset (fst (compare_elements_unordered uo io B A ([], []) path)) =
           image_mset mirror (mset (fst (compare_elements_unordered uo io A B ([], []) path))) \<and>
         length (fst (compare_elements_unordered uo io B A ([], []) path)) =
           length (fst (compare_elements_unordered uo io A B ([], []) path)) \<and>
         (fst (compare_elements_unordered uo io B A ([], []) path) = [] \<longleftrightarrow>
          fst (compare_elements_unordered uo io A B ([], []) path) = [])"
proof -
  have m: "mset (differences_of uo io B A path) =
      image_mset mirror (mset (differences_of uo io A B path))"
    by (rule mirror_differences [OF assms])
  then have "size (mset (differences_of uo io B A path)) =
      size (mset (differences_of uo io A B path))"
    by simp
  then have l: "length (differences_of uo io B A path) = length (differences_of uo io A B path)"
    by simp
  then have "differences_of uo io B A path = [] \<longleftrightarrow> differences_of uo io A B path = []"
    by (metis length_0_conv)
  with m l show ?thesis
    by (simp add: differences_of_def)
qed

theorem swap_symmetry_witness:
  "valid_union union_in_order \<and> valid_inter inter_in_order \<and>
   well_formed sample \<and> well_formed other \<and>
   mset (fst (compare_elements_unordered union_in_order inter_in_order other sample ([], [])
     (lit ''/''))) =
     image_mset mirror (mset (fst (compare_elements_unordered union_in_order inter_in_order
       sample other ([], []) (lit ''/'')))) \<and>
   length (fst (compare_elements_unordered union_in_order inter_in_order other sample ([], [])
     (lit ''/''))) =
     length (fst (compare_elements_unordered union_in_order inter_in_order sample other ([], [])
       (lit ''/''))) \<and>
   (fst (compare_elements_unordered union_in_order inter_in_order other sample ([], [])
     (lit ''/'')) = [] \<longleftrightarrow>
    fst (compare_elements_unordered union_in_order inter_in_order sample other ([], [])
      (lit ''/'')) = [])"
  by (intro conjI valid_union_in_order valid_inter_in_order well_formed_sample well_formed_other
      swap_symmetry [OF valid_union_in_order valid_inter_in_order well_formed_sample
        well_formed_other, THEN conjunct1]
      swap_symmetry [OF valid_union_in_order valid_inter_in_order well_formed_sample
        well_formed_other, THEN conjunct2, THEN conjunct1]
      swap_symmetry [OF valid_union_in_order valid_inter_in_order well_formed_sample
        well_formed_other, THEN conjunct2, THEN conjunct2])

text \<open>
  C8, as the code has it. Take a parent with two children and an otherwise equal parent
  with one child, all three children with the signature of \<^verbatim>\<open><c/>\<close>. The comparison
  gives the count record with 2 and 1 and makes exactly one recursive call: on the first
  child of the first parent and the child of the second. Its differences and matches
  follow the count record and the two matches of the parents; the second child of the
  first parent is in no pair. For three plain \<^verbatim>\<open><c/>\<close> this is exactly one difference,
  the count record, and the tag and attribute matches of the parents and of the pair.
\<close>

theorem count_mismatch_pairs_first:
  assumes "valid_union uo" and "valid_inter io" and "distinct (map fst a)"
    and "element_signature c1 = element_signature (leaf ''c'')"
    and "element_signature c2 = element_signature (leaf ''c'')"
    and "element_signature c3 = element_signature (leaf ''c'')"
  shows "recursion_pairs io (Element t a x [c1, c2]) (Element t a x [c3]) = [(c1, c3)] \<and>
         compare_elements_unordered uo io (Element t a x [c1, c2]) (Element t a x [c3])
             ([], []) path =
           (DifferentCount (lit ''c'', [], []) (path @ lit ''/'' @ t) 2 1 #
              fst (compare_elements_unordered uo io c1 c3 ([], []) (path @ lit ''/'' @ t)),
            MatchingTags path t # MatchingAttributes (path @ lit ''/'' @ t) a #
              snd (compare_elements_unordered uo io c1 c3 ([], []) (path @ lit ''/'' @ t))) \<and>
         compare_elements_unordered uo io
             (Element t a x [leaf ''c'', leaf ''c'']) (Element t a x [leaf ''c'']) ([], []) path =
           ([DifferentCount (lit ''c'', [], []) (path @ lit ''/'' @ t) 2 1],
            [MatchingTags path t, MatchingAttributes (path @ lit ''/'' @ t) a,
             MatchingTags (path @ lit ''/'' @ t) (lit ''c''),
             MatchingAttributes (path @ lit ''/'' @ t @ lit ''/'' @ lit ''c'') []])"
proof -
  let ?k = "(lit ''c'', [], []) :: signature"
  have u: "uo [?k] [?k] = [?k]"
    by (rule union_single [OF assms(1)]) simp
  have i: "io [?k] [?k] = [?k]"
    by (rule inter_single [OF assms(2)]) simp
  have general: "recursion_pairs io (Element t a x [d1, d2]) (Element t a x [d3]) = [(d1, d3)] \<and>
      compare_elements_unordered uo io (Element t a x [d1, d2]) (Element t a x [d3])
          ([], []) path =
        (DifferentCount ?k (path @ lit ''/'' @ t) 2 1 #
           differences_of uo io d1 d3 (path @ lit ''/'' @ t),
         MatchingTags path t # MatchingAttributes (path @ lit ''/'' @ t) a #
           matches_of uo io d1 d3 (path @ lit ''/'' @ t))"
    if k1: "element_signature d1 = ?k" and k2: "element_signature d2 = ?k"
      and k3: "element_signature d3 = ?k" for d1 d2 d3
  proof -
    have g2: "group [d1, d2] = [(?k, [d1, d2])]" and g1: "group [d3] = [(?k, [d3])]"
      by (simp_all add: group_def k1 k2 k3)
    have pairs: "recursion_pairs io (Element t a x [d1, d2]) (Element t a x [d3]) = [(d1, d3)]"
      by (simp add: recursion_pairs_def Let_def g1 g2 keys_def i getitem_def)
    have "compare_elements_unordered uo io (Element t a x [d1, d2]) (Element t a x [d3])
          ([], []) path =
        (DifferentCount ?k (path @ lit ''/'' @ t) 2 1 #
           differences_of uo io d1 d3 (path @ lit ''/'' @ t),
         MatchingTags path t # MatchingAttributes (path @ lit ''/'' @ t) a #
           matches_of uo io d1 d3 (path @ lit ''/'' @ t))"
      by (simp add: compare_loops pairs compare_attrib_def dict_eq_refl [OF assms(3)]
          reconcile_def reconcile_key_def g1 g2 keys_def u getitem_def
          compare_append [of uo io d1 d3])
    with pairs show ?thesis
      by simp
  qed
  have leaves: "differences_of uo io (leaf ''c'') (leaf ''c'') p = [] \<and>
      matches_of uo io (leaf ''c'') (leaf ''c'') p =
        [MatchingTags p (lit ''c''), MatchingAttributes (p @ lit ''/'' @ lit ''c'') []]" for p
    by (simp add: differences_of_def matches_of_def compare_leaves [OF assms(1) assms(2)])
  show ?thesis
    using general [of c1 c2 c3] general [of "leaf ''c''" "leaf ''c''" "leaf ''c''"]
      assms(4-6) leaves
    by (simp add: signature_leaf_c differences_of_def matches_of_def)
qed

theorem count_mismatch_pairs_first_witness:
  "valid_union union_in_order \<and> valid_inter inter_in_order \<and>
   distinct (map fst [(lit ''id'', lit ''7'')]) \<and>
   element_signature c_nested = element_signature (leaf ''c'') \<and>
   element_signature (leaf ''c'') = element_signature (leaf ''c'') \<and>
   element_signature c_blank = element_signature (leaf ''c'') \<and>
   recursion_pairs inter_in_order
     (Element (lit ''p'') [(lit ''id'', lit ''7'')] None [c_nested, leaf ''c''])
     (Element (lit ''p'') [(lit ''id'', lit ''7'')] None [c_blank]) = [(c_nested, c_blank)] \<and>
   compare_elements_unordered union_in_order inter_in_order
     (Element (lit ''p'') [(lit ''id'', lit ''7'')] None [c_nested, leaf ''c''])
     (Element (lit ''p'') [(lit ''id'', lit ''7'')] None [c_blank]) ([], []) (lit ''/'') =
     (DifferentCount (lit ''c'', [], []) (lit ''/'' @ lit ''/'' @ lit ''p'') 2 1 #
        fst (compare_elements_unordered union_in_order inter_in_order c_nested c_blank ([], [])
               (lit ''/'' @ lit ''/'' @ lit ''p'')),
      MatchingTags (lit ''/'') (lit ''p'') #
      MatchingAttributes (lit ''/'' @ lit ''/'' @ lit ''p'') [(lit ''id'', lit ''7'')] #
        snd (compare_elements_unordered union_in_order inter_in_order c_nested c_blank ([], [])
               (lit ''/'' @ lit ''/'' @ lit ''p''))) \<and>
   compare_elements_unordered union_in_order inter_in_order
     (Element (lit ''p'') [(lit ''id'', lit ''7'')] None [leaf ''c'', leaf ''c''])
     (Element (lit ''p'') [(lit ''id'', lit ''7'')] None [leaf ''c'']) ([], []) (lit ''/'') =
     ([DifferentCount (lit ''c'', [], []) (lit ''/'' @ lit ''/'' @ lit ''p'') 2 1],
      [MatchingTags (lit ''/'') (lit ''p''),
       MatchingAttributes (lit ''/'' @ lit ''/'' @ lit ''p'') [(lit ''id'', lit ''7'')],
       MatchingTags (lit ''/'' @ lit ''/'' @ lit ''p'') (lit ''c''),
       MatchingAttributes (lit ''/'' @ lit ''/'' @ lit ''p'' @ lit ''/'' @ lit ''c'') []]) \<and>
   fst (compare_elements_unordered union_in_order inter_in_order
     (Element (lit ''p'') [(lit ''id'', lit ''7'')] None [c_nested, leaf ''c''])
     (Element (lit ''p'') [(lit ''id'', lit ''7'')] None [c_blank]) ([], []) (lit ''/'')) =
     [DifferentCount (lit ''c'', [], []) (lit ''//p'') 2 1,
      MissingInSecond (lit ''//p/c'') (lit ''x'', [], [])]"
proof -
  note main = count_mismatch_pairs_first [OF valid_union_in_order valid_inter_in_order
      distinct_id_attrib signature_c_nested signature_c_leaf signature_c_blank]
  have v: "fst (compare_elements_unordered union_in_order inter_in_order
     (Element (lit ''p'') [(lit ''id'', lit ''7'')] None [c_nested, leaf ''c''])
     (Element (lit ''p'') [(lit ''id'', lit ''7'')] None [c_blank]) ([], []) (lit ''/'')) =
     [DifferentCount (lit ''c'', [], []) (lit ''//p'') 2 1,
      MissingInSecond (lit ''//p/c'') (lit ''x'', [], [])]"
    by code_simp
  show ?thesis
    by (intro conjI valid_union_in_order valid_inter_in_order distinct_id_attrib
        signature_c_nested signature_c_leaf signature_c_blank
        main [THEN conjunct1] main [THEN conjunct2, THEN conjunct1]
        main [THEN conjunct2, THEN conjunct2] v)
qed

text \<open>
  C8 as stated says that there is no recursion into \<^verbatim>\<open><c/>\<close>. On
  \<^verbatim>\<open><p><c/><c/></p>\<close> against \<^verbatim>\<open><p><c/></p>\<close> the list of the pairs of the recursive
  calls is not empty, and the matches hold the two entries of the call on the pair, at
  the path of the children.
\<close>

theorem count_mismatch_recursion_counterexample:
  "recursion_pairs inter_in_order (node ''p'' [leaf ''c'', leaf ''c'']) (node ''p'' [leaf ''c''])
     \<noteq> [] \<and>
   compare_elements_unordered union_in_order inter_in_order
     (node ''p'' [leaf ''c'', leaf ''c'']) (node ''p'' [leaf ''c'']) ([], []) (lit ''/'') =
     ([DifferentCount (lit ''c'', [], []) (lit ''//p'') 2 1],
      [MatchingTags (lit ''/'') (lit ''p''), MatchingAttributes (lit ''//p'') [],
       MatchingTags (lit ''//p'') (lit ''c''), MatchingAttributes (lit ''//p/c'') []])"
  by code_simp

text \<open>
  C1 on \<open>nested_first\<close> and \<open>nested_last\<close>, which differ in the order of the two
  children of the root only: the two children have one signature and are paired by
  position, the one with a child against the one without, and the run ends with two
  differences and the line \<open>different_msg\<close>.
\<close>

theorem permuted_siblings_differ:
  "tag nested_last = tag nested_first \<and> attrib nested_last = attrib nested_first \<and>
   etext nested_last = etext nested_first \<and>
   children nested_last = rev (children nested_first) \<and>
   well_formed nested_first \<and>
   compare_elements_unordered union_in_order inter_in_order nested_first nested_last ([], [])
     (lit ''/'') =
     ([MissingInSecond (lit ''//r/c'') (lit ''x'', [], []),
       MissingInFirst (lit ''//r/c'') (lit ''x'', [], [])],
      [MatchingTags (lit ''/'') (lit ''r''), MatchingAttributes (lit ''//r'') [],
       MatchingElement (lit ''c'', [], []) (lit ''//r'') 2,
       MatchingTags (lit ''//r'') (lit ''c''), MatchingAttributes (lit ''//r/c'') [],
       MatchingTags (lit ''//r'') (lit ''c''), MatchingAttributes (lit ''//r/c'') []]) \<and>
   console (compare_xml_files union_in_order inter_in_order (Some nested_first)
     (Some nested_last)) = [different_msg]"
  by code_simp


end
